theory Spec2Isabelle
  imports Complex_Main
begin

section \<open>First-login codes: the encode/decode transform\<close>

text \<open>
  A shallow embedding of \<^verbatim>\<open>generate_firstlogin_codes.py\<close> and
  \<^verbatim>\<open>verify_firstlogin_codes.py\<close>.

  Python strings are modelled as HOL strings: sequences of characters whose code points lie
  in 0..255, with \<open>ord\<close> as \<open>of_char\<close>. Python integers are \<open>int\<close>; positions and
  lengths, which never go negative, are \<open>nat\<close>. Every exception the source can raise is a
  value \<open>Inl e\<close>; console output is left out.
\<close>

subsection \<open>Exceptions\<close>

text \<open>
  \<open>ValueError msg\<close> is a \<^verbatim>\<open>raise ValueError(msg)\<close> of the source. \<open>ValueError_int d\<close> is the
  ValueError that the builtin \<^verbatim>\<open>int(d)\<close> raises on the one-character string \<open>d\<close>
  (``invalid literal for int() with base 10''). \<open>ZeroDivisionError\<close> comes from \<^verbatim>\<open>%\<close> and
  \<^verbatim>\<open>/\<close> with a zero right operand, \<open>OverflowError\<close> from \<^verbatim>\<open>/\<close> on integers whose quotient
  is too large for a float, \<open>KeyError\<close> from the subscript of a dictionary at a key it
  does not hold.
\<close>

datatype py_error =
    ValueError string
  | ValueError_int char
  | ZeroDivisionError
  | OverflowError
  | KeyError

subsection \<open>Builtins of Python used by the transform\<close>

text \<open>
  \<^verbatim>\<open>str.zfill(width)\<close>: the string itself when it is long enough, otherwise padded on the left
  with the digit zero, the padding going after a leading sign.
\<close>

definition zfill :: "nat \<Rightarrow> string \<Rightarrow> string" where
  "zfill width s =
     (if width \<le> length s then s
      else (case s of
              [] \<Rightarrow> replicate width (CHR ''0'')
            | c # cs \<Rightarrow>
                if c = CHR ''+'' \<or> c = CHR ''-''
                then c # replicate (width - length s) (CHR ''0'') @ cs
                else replicate (width - length s) (CHR ''0'') @ s))"

text \<open>The slice \<^verbatim>\<open>s[-n:]\<close>: the last \<open>n\<close> characters, the whole string when it is shorter.\<close>

definition slice_last :: "nat \<Rightarrow> 'a list \<Rightarrow> 'a list" where
  "slice_last n s = drop (length s - n) s"

text \<open>
  \<^verbatim>\<open>int(d)\<close> on a string of one character: among the code points 0..255 only the ASCII
  digits are accepted (a blank, a sign or a superscript digit alone is an invalid literal).
\<close>

definition py_int :: "char \<Rightarrow> py_error + int" where
  "py_int d =
     (let n = (of_char d :: nat)
      in if 48 \<le> n \<and> n \<le> 57 then Inr (int n - 48) else Inl (ValueError_int d))"

text \<open>The comprehension \<^verbatim>\<open>[int(d) for d in pin_str]\<close>, which stops at the first exception.\<close>

fun int_each :: "string \<Rightarrow> py_error + int list" where
  "int_each [] = Inr []"
| "int_each (d # ds) =
     (case py_int d of
        Inl e \<Rightarrow> Inl e
      | Inr v \<Rightarrow> (case int_each ds of Inl e \<Rightarrow> Inl e | Inr vs \<Rightarrow> Inr (v # vs)))"

text \<open>
  The true division \<^verbatim>\<open>a / b\<close> of two Python integers: ZeroDivisionError when \<open>b\<close> is zero,
  OverflowError when the quotient, rounded to the nearest double, is beyond the largest
  double (from \<open>2 ^ 1024 - 2 ^ 970\<close> on), and otherwise the double nearest to the quotient.
  The model keeps the exact quotient in place of that double. For the divisors of this
  program (between 1 and 2550, a character code times a multiplier of at most 10) the
  test that the decoder applies gives the same answer on both: the nearest double of a
  quotient is an integer in 32..126 exactly when the quotient is, because a quotient that
  is not an integer is at least 1/2550 away from every integer, far more than the spacing
  of the doubles below 128.
\<close>

definition float_overflow :: rat where
  "float_overflow = 2 ^ 1024 - 2 ^ 970"

definition true_div :: "int \<Rightarrow> int \<Rightarrow> py_error + rat" where
  "true_div a b =
     (if b = 0 then Inl ZeroDivisionError
      else (let q = (of_int a / of_int b :: rat)
            in if float_overflow \<le> \<bar>q\<bar> then Inl OverflowError else Inr q))"

text \<open>\<^verbatim>\<open>x.is_integer()\<close>\<close>

definition is_integer :: "rat \<Rightarrow> bool" where
  "is_integer q = (of_int \<lfloor>q\<rfloor> = q)"

text \<open>\<^verbatim>\<open>str(n)\<close> of an integer, as the f-string of the key name formats the level.\<close>

function str_nat :: "nat \<Rightarrow> string" where
  "str_nat n =
     (if n < 10 then [char_of (48 + n)]
      else str_nat (n div 10) @ [char_of (48 + n mod 10)])"
  by pat_completeness auto
termination
  by (relation "measure id") auto

declare str_nat.simps [simp del]

definition str_int :: "int \<Rightarrow> string" where
  "str_int i = (if i < 0 then CHR ''-'' # str_nat (nat (- i)) else str_nat (nat i))"

subsection \<open>Constants of both scripts\<close>

definition BASE_OFFSET :: nat where
  "BASE_OFFSET = 13"

definition WORKER_URLS :: "int \<rightharpoonup> string" where
  "WORKER_URLS =
     [3 \<mapsto> ''https://z3c9h1-qs7f5l2p8.johan-351.workers.dev'',
      2 \<mapsto> ''https://m4v8k2-rb6n0t3y9.johan-351.workers.dev'',
      1 \<mapsto> ''https://h7p3w5-xd1q6e4z8.johan-351.workers.dev'']"

definition BOOTSTRAP_PINS :: "int \<rightharpoonup> string" where
  "BOOTSTRAP_PINS = [3 \<mapsto> ''5329'', 2 \<mapsto> ''5229'', 1 \<mapsto> ''5129'']"

definition TIER_NAMES :: "int \<rightharpoonup> string" where
  "TIER_NAMES = [3 \<mapsto> ''tier3'', 2 \<mapsto> ''tier2'', 1 \<mapsto> ''tier1'']"

subsection \<open>The loop body shared by \<open>encode_payload\<close> and \<open>decode_payload\<close>\<close>

text \<open>
  \<^verbatim>\<open>aud_pos = BASE_OFFSET + i; wrapped_index = aud_pos % aud_length\<close>
\<close>

definition wrapped_index :: "nat \<Rightarrow> nat \<Rightarrow> py_error + nat" where
  "wrapped_index aud_length i =
     (let aud_pos = BASE_OFFSET + i
      in if aud_length = 0 then Inl ZeroDivisionError else Inr (aud_pos mod aud_length))"

text \<open>
  \<^verbatim>\<open>aud_char = aud_id[wrapped_index]; aud_ascii = ord(aud_char)\<close>. The index is below the
  length, so the subscript never raises.
\<close>

definition aud_ascii_at :: "string \<Rightarrow> nat \<Rightarrow> py_error + int" where
  "aud_ascii_at aud_id i =
     (case wrapped_index (length aud_id) i of
        Inl e \<Rightarrow> Inl e
      | Inr w \<Rightarrow> Inr (of_char (aud_id ! w)))"

text \<open>
  \<^verbatim>\<open>pin_digit = pin_digits[i % len(pin_digits)]\<close>,
  \<^verbatim>\<open>pin_multiplier = 10 if pin_digit == 0 else pin_digit\<close>
\<close>

definition pin_multiplier_at :: "int list \<Rightarrow> nat \<Rightarrow> py_error + int" where
  "pin_multiplier_at pin_digits i =
     (if length pin_digits = 0 then Inl ZeroDivisionError
      else (let pin_digit = pin_digits ! (i mod length pin_digits)
            in Inr (if pin_digit = 0 then 10 else pin_digit)))"

subsection \<open>\<open>encode_payload\<close>\<close>

definition encode_value :: "string \<Rightarrow> int list \<Rightarrow> nat \<Rightarrow> char \<Rightarrow> py_error + int" where
  "encode_value aud_id pin_digits i ch =
     (let char_ascii = (of_char ch :: int)
      in case aud_ascii_at aud_id i of
           Inl e \<Rightarrow> Inl e
         | Inr aud_ascii \<Rightarrow>
             (case pin_multiplier_at pin_digits i of
                Inl e \<Rightarrow> Inl e
              | Inr pin_multiplier \<Rightarrow> Inr (char_ascii * aud_ascii * pin_multiplier)))"

text \<open>The \<^verbatim>\<open>for i, char in enumerate(payload)\<close> loop, appending to \<open>encoded_array\<close>.\<close>

fun encode_loop :: "string \<Rightarrow> int list \<Rightarrow> nat \<Rightarrow> string \<Rightarrow> int list \<Rightarrow> py_error + int list" where
  "encode_loop aud_id pin_digits i [] encoded_array = Inr encoded_array"
| "encode_loop aud_id pin_digits i (ch # rest) encoded_array =
     (case encode_value aud_id pin_digits i ch of
        Inl e \<Rightarrow> Inl e
      | Inr encoded_value \<Rightarrow>
          encode_loop aud_id pin_digits (Suc i) rest (encoded_array @ [encoded_value]))"

definition encode_payload :: "string \<Rightarrow> string \<Rightarrow> string \<Rightarrow> py_error + int list" where
  "encode_payload payload aud_id pin =
     (if aud_id = [] \<or> pin = [] then Inl (ValueError ''Audience ID and PIN are required'')
      else (let pin_str = slice_last 4 (zfill 4 pin)
            in case int_each pin_str of
                 Inl e \<Rightarrow> Inl e
               | Inr pin_digits \<Rightarrow>
                   if length pin_digits \<noteq> 4 then Inl (ValueError ''PIN must be exactly 4 digits'')
                   else encode_loop aud_id pin_digits 0 payload []))"

subsection \<open>\<open>decode_payload\<close>\<close>

text \<open>
  \<open>decode_payload\<close> returns a string in both cases. \<open>Decoded s\<close> is the joined string of the
  last line; \<open>DecodeError i q\<close> is the string
  \<^verbatim>\<open>"DECODE ERROR at position {i}: Invalid character {char_ascii}"\<close> that the loop returns
  early (it starts with a cross mark, which no decoded string can start with), where \<open>q\<close>
  is the exact quotient whose nearest double Python prints.
\<close>

datatype decoded = Decoded string | DecodeError nat rat

definition decode_value :: "string \<Rightarrow> int list \<Rightarrow> nat \<Rightarrow> int \<Rightarrow> py_error + rat" where
  "decode_value aud_id pin_digits i encoded_value =
     (case aud_ascii_at aud_id i of
        Inl e \<Rightarrow> Inl e
      | Inr aud_ascii \<Rightarrow>
          (case pin_multiplier_at pin_digits i of
             Inl e \<Rightarrow> Inl e
           | Inr pin_multiplier \<Rightarrow> true_div encoded_value (aud_ascii * pin_multiplier)))"

fun decode_loop :: "string \<Rightarrow> int list \<Rightarrow> nat \<Rightarrow> int list \<Rightarrow> string \<Rightarrow> py_error + decoded" where
  "decode_loop aud_id pin_digits i [] decoded_chars = Inr (Decoded decoded_chars)"
| "decode_loop aud_id pin_digits i (encoded_value # rest) decoded_chars =
     (case decode_value aud_id pin_digits i encoded_value of
        Inl e \<Rightarrow> Inl e
      | Inr char_ascii \<Rightarrow>
          if \<not> is_integer char_ascii \<or> char_ascii < 32 \<or> char_ascii > 126
          then Inr (DecodeError i char_ascii)
          else decode_loop aud_id pin_digits (Suc i) rest
                 (decoded_chars @ [char_of \<lfloor>char_ascii\<rfloor>]))"

definition decode_payload :: "int list \<Rightarrow> string \<Rightarrow> string \<Rightarrow> py_error + decoded" where
  "decode_payload encoded_array aud_id pin =
     (let pin_str = slice_last 4 (zfill 4 pin)
      in case int_each pin_str of
           Inl e \<Rightarrow> Inl e
         | Inr pin_digits \<Rightarrow> decode_loop aud_id pin_digits 0 encoded_array [])"

subsection \<open>Key names, \<open>generate_firstlogin_array\<close> and \<open>main\<close>\<close>

text \<open>\<^verbatim>\<open>key_name = f"firstlogin_level{level}_{aud_id}"\<close> of the generator.\<close>

definition key_name :: "int \<Rightarrow> string \<Rightarrow> string" where
  "key_name level aud_id = ''firstlogin_level'' @ str_int level @ ''_'' @ aud_id"

text \<open>The key name that the verifier computes from the tier's name.\<close>

definition verify_key_name :: "string \<Rightarrow> string \<Rightarrow> string" where
  "verify_key_name tier aud_id =
     ''firstlogin_level''
       @ (if tier = ''FULL'' then ''3'' else if tier = ''RESTRICTED'' then ''2'' else ''1'')
       @ ''_'' @ aud_id"

definition generate_firstlogin_array :: "int \<Rightarrow> string \<Rightarrow> py_error + string \<times> int list" where
  "generate_firstlogin_array level aud_id =
     (case WORKER_URLS level of
        None \<Rightarrow> Inl (ValueError (''Invalid level: '' @ str_int level @ ''. Must be 1, 2, or 3''))
      | Some worker_url \<Rightarrow>
          (case BOOTSTRAP_PINS level of
             None \<Rightarrow> Inl KeyError
           | Some bootstrap_pin \<Rightarrow>
               (case TIER_NAMES level of
                  None \<Rightarrow> Inl KeyError
                | Some tier_name \<Rightarrow>
                    (let payload =
                       ''MEAM '' @ worker_url @ '' '' @ tier_name @ ''@meam-firstlogin.internal''
                     in case encode_payload payload aud_id bootstrap_pin of
                          Inl e \<Rightarrow> Inl e
                        | Inr encoded_array \<Rightarrow> Inr (key_name level aud_id, encoded_array)))))"

text \<open>
  The store: a file system from paths to JSON objects, an object being a map from keys to
  arrays of integers. \<open>update_somenumbers_json\<close> loads the object (or starts from
  \<^verbatim>\<open>{"somenumbers": []}\<close>), sets one key and writes the object back.
\<close>

type_synonym json_object = "string \<rightharpoonup> int list"
type_synonym files = "string \<rightharpoonup> json_object"

definition update_somenumbers_json :: "string \<Rightarrow> int list \<Rightarrow> string \<Rightarrow> files \<Rightarrow> files" where
  "update_somenumbers_json key encoded_array somenumbers_path fs =
     (let data = (case fs somenumbers_path of
                    Some d \<Rightarrow> d
                  | None \<Rightarrow> [''somenumbers'' \<mapsto> []])
      in fs(somenumbers_path \<mapsto> data(key \<mapsto> encoded_array)))"

text \<open>
  \<open>main\<close> after the arguments are parsed: the exit status of the process and the files it
  leaves. The audience id is validated first; every exception of the generator is caught
  and turned into exit status 1.
\<close>

record args =
  args_level :: int
  args_aud :: string
  args_output :: string
  args_dry_run :: bool

definition main :: "args \<Rightarrow> files \<Rightarrow> nat \<times> files" where
  "main a fs =
     (if args_aud a = [] \<or> length (args_aud a) < 10 then (1, fs)
      else (case generate_firstlogin_array (args_level a) (args_aud a) of
              Inl e \<Rightarrow> (1, fs)
            | Inr (key, encoded_array) \<Rightarrow>
                if args_dry_run a then (0, fs)
                else (0, update_somenumbers_json key encoded_array (args_output a) fs)))"

subsection \<open>The notions that the specification states its properties with\<close>

text \<open>
  The definitions of this subsection follow the words of the specification, not the code;
  the lemmas below relate them to the code.
\<close>

text \<open>A character of the printable range 32..126.\<close>

definition printable :: "char \<Rightarrow> bool" where
  "printable c = (32 \<le> (of_char c :: nat) \<and> (of_char c :: nat) \<le> 126)"

definition decimal_digit :: "char \<Rightarrow> bool" where
  "decimal_digit c = (48 \<le> (of_char c :: nat) \<and> (of_char c :: nat) \<le> 57)"

text \<open>
  The PIN ``left-padded with zeros, keeping only the last 4 digits of whatever is
  supplied'', and what it means to normalize to exactly 4 decimal digits.
\<close>

definition normalized_pin :: "string \<Rightarrow> string" where
  "normalized_pin pin = slice_last 4 (replicate (4 - length pin) (CHR ''0'') @ pin)"

definition four_digit_pin :: "string \<Rightarrow> bool" where
  "four_digit_pin pin =
     (length (normalized_pin pin) = 4 \<and> list_all decimal_digit (normalized_pin pin))"

definition digits_of_pin :: "string \<Rightarrow> int list" where
  "digits_of_pin pin = map (\<lambda>c. int (of_char c) - 48) (normalized_pin pin)"

text \<open>The first character of a string that is not a decimal digit, if there is one.\<close>

definition first_non_digit :: "string \<Rightarrow> char option" where
  "first_non_digit s = List.find (\<lambda>c. \<not> decimal_digit c) s"

text \<open>
  \<open>audience_index = (BASE_OFFSET + i) mod length(audience_id)\<close>, the code of the audience
  character there, the multiplier of position \<open>i\<close>, and the quotient of the decoder.
\<close>

definition audience_index :: "nat \<Rightarrow> nat \<Rightarrow> nat" where
  "audience_index L i = (BASE_OFFSET + i) mod L"

definition audience_code :: "string \<Rightarrow> nat \<Rightarrow> int" where
  "audience_code aud_id i = of_char (aud_id ! audience_index (length aud_id) i)"

definition multiplier :: "string \<Rightarrow> nat \<Rightarrow> int" where
  "multiplier pin i =
     (let pin_digit = digits_of_pin pin ! (i mod 4)
      in if pin_digit = 0 then 10 else pin_digit)"

definition char_quotient :: "string \<Rightarrow> string \<Rightarrow> nat \<Rightarrow> int \<Rightarrow> rat" where
  "char_quotient aud_id pin i encoded_value =
     of_int encoded_value / of_int (audience_code aud_id i * multiplier pin i)"

text \<open>The validity check of the decoder: an exact integer in 32..126.\<close>

definition valid_char_code :: "rat \<Rightarrow> bool" where
  "valid_char_code q = (is_integer q \<and> 32 \<le> q \<and> q \<le> 126)"

text \<open>\<open>encoded[i] = char_code * audience_code * multiplier\<close>, for every position.\<close>

definition encoded_values :: "string \<Rightarrow> string \<Rightarrow> string \<Rightarrow> nat \<Rightarrow> int list" where
  "encoded_values payload aud_id pin i =
     map (\<lambda>(j, ch). of_char ch * audience_code aud_id j * multiplier pin j)
       (zip [i ..< i + length payload] payload)"

section \<open>Properties\<close>

subsection \<open>PIN parsing\<close>

lemma length_zfill: "length (zfill w s) = max w (length s)"
  by (auto simp: zfill_def split: list.splits)

lemma length_pin_str: "length (slice_last 4 (zfill 4 pin)) = 4"
  by (simp add: slice_last_def length_zfill)

lemma length_normalized_pin: "length (normalized_pin pin) = 4"
  by (simp add: normalized_pin_def slice_last_def)

lemma py_int_digit: "decimal_digit c \<Longrightarrow> py_int c = Inr (int (of_char c) - 48)"
  by (simp add: py_int_def decimal_digit_def)

lemma py_int_not_digit: "\<not> decimal_digit c \<Longrightarrow> py_int c = Inl (ValueError_int c)"
  by (auto simp: py_int_def decimal_digit_def)

lemma int_each_digits:
  "list_all decimal_digit s \<Longrightarrow> int_each s = Inr (map (\<lambda>c. int (of_char c) - 48) s)"
  by (induction s) (simp_all add: py_int_digit)

lemma int_each_not_digits:
  "\<not> list_all decimal_digit s \<Longrightarrow> \<exists>c \<in> set s. \<not> decimal_digit c \<and> int_each s = Inl (ValueError_int c)"
proof (induction s)
  case Nil
  then show ?case by simp
next
  case (Cons d ds)
  show ?case
  proof (cases "decimal_digit d")
    case True
    with Cons obtain c where "c \<in> set ds" "\<not> decimal_digit c" "int_each ds = Inl (ValueError_int c)"
      by auto
    with True show ?thesis by (auto simp: py_int_digit)
  next
    case False
    then show ?thesis by (simp add: py_int_not_digit)
  qed
qed

lemma int_each_zeros:
  "int_each (replicate n (CHR ''0'') @ s) =
     (case int_each s of Inl e \<Rightarrow> Inl e | Inr vs \<Rightarrow> Inr (replicate n 0 @ vs))"
  by (induction n) (simp_all add: py_int_def split: sum.splits)

lemma int_each_sign:
  "c = CHR ''+'' \<or> c = CHR ''-'' \<Longrightarrow> int_each (c # s) = Inl (ValueError_int c)"
  by (auto simp: py_int_def)

lemma int_each_pin_str:
  "int_each (slice_last 4 (zfill 4 pin)) = int_each (normalized_pin pin)"
proof (cases "4 \<le> length pin")
  case True
  then show ?thesis by (simp add: zfill_def normalized_pin_def)
next
  case short: False
  show ?thesis
  proof (cases pin)
    case Nil
    then show ?thesis by (simp add: zfill_def normalized_pin_def)
  next
    case (Cons c cs)
    show ?thesis
    proof (cases "c = CHR ''+'' \<or> c = CHR ''-''")
      case True
      have "int_each (slice_last 4 (zfill 4 pin)) = Inl (ValueError_int c)"
        using short Cons True by (auto simp: zfill_def slice_last_def py_int_def)
      moreover have "int_each (normalized_pin pin) = Inl (ValueError_int c)"
        using short Cons True
        by (simp add: normalized_pin_def slice_last_def int_each_zeros) (auto simp: py_int_def)
      ultimately show ?thesis by simp
    next
      case False
      then show ?thesis using short Cons by (simp add: zfill_def normalized_pin_def)
    qed
  qed
qed

lemma int_each_four_digit_pin:
  "four_digit_pin pin \<Longrightarrow> int_each (slice_last 4 (zfill 4 pin)) = Inr (digits_of_pin pin)"
  by (simp add: int_each_pin_str four_digit_pin_def digits_of_pin_def int_each_digits)

lemma int_each_not_four_digit_pin:
  "\<not> four_digit_pin pin \<Longrightarrow>
     \<exists>c. \<not> decimal_digit c \<and> int_each (slice_last 4 (zfill 4 pin)) = Inl (ValueError_int c)"
  using int_each_not_digits [of "normalized_pin pin"]
  by (auto simp: int_each_pin_str four_digit_pin_def length_normalized_pin)

lemma length_digits_of_pin: "length (digits_of_pin pin) = 4"
  by (simp add: digits_of_pin_def length_normalized_pin)

lemma digits_of_pin_range:
  assumes "four_digit_pin pin" "k < 4"
  shows "0 \<le> digits_of_pin pin ! k \<and> digits_of_pin pin ! k \<le> 9"
proof -
  have "k < length (normalized_pin pin)" using assms(2) by (simp add: length_normalized_pin)
  moreover from this have "decimal_digit (normalized_pin pin ! k)"
    using assms(1) by (simp add: four_digit_pin_def list_all_length)
  ultimately show ?thesis
    by (simp add: digits_of_pin_def decimal_digit_def)
qed

lemma multiplier_range:
  assumes "four_digit_pin pin"
  shows "1 \<le> multiplier pin i \<and> multiplier pin i \<le> 10"
  using digits_of_pin_range [OF assms, of "i mod 4"]
  by (auto simp: multiplier_def Let_def)

lemma aud_ascii_at_eq:
  "aud_id \<noteq> [] \<Longrightarrow> aud_ascii_at aud_id i = Inr (audience_code aud_id i)"
  by (simp add: aud_ascii_at_def wrapped_index_def audience_code_def audience_index_def)

lemma aud_ascii_at_empty: "aud_ascii_at [] i = Inl ZeroDivisionError"
  by (simp add: aud_ascii_at_def wrapped_index_def)

lemma pin_multiplier_at_eq:
  "pin_multiplier_at (digits_of_pin pin) i = Inr (multiplier pin i)"
  by (simp add: pin_multiplier_at_def multiplier_def length_digits_of_pin Let_def)

lemma of_char_int_nonneg: "0 \<le> (of_char c :: int)"
  by (metis of_nat_of_char of_nat_0_le_iff)

lemma of_char_int_pos: "of_char c \<noteq> (0 :: int) \<Longrightarrow> 0 < (of_char c :: int)"
  using of_char_int_nonneg [of c] by simp

lemma audience_code_nonneg: "0 \<le> audience_code aud_id i"
  by (simp add: audience_code_def of_char_int_nonneg)

lemma encode_value_eq:
  "aud_id \<noteq> [] \<Longrightarrow>
   encode_value aud_id (digits_of_pin pin) i ch =
     Inr (of_char ch * audience_code aud_id i * multiplier pin i)"
  by (simp add: encode_value_def aud_ascii_at_eq pin_multiplier_at_eq)

lemma encoded_values_Cons:
  "encoded_values (ch # rest) aud_id pin i =
     (of_char ch * audience_code aud_id i * multiplier pin i) # encoded_values rest aud_id pin (Suc i)"
  by (simp add: encoded_values_def upt_conv_Cons del: upt_Suc)

lemma encode_loop_eq:
  "aud_id \<noteq> [] \<Longrightarrow>
   encode_loop aud_id (digits_of_pin pin) i payload acc =
     Inr (acc @ encoded_values payload aud_id pin i)"
proof (induction payload arbitrary: i acc)
  case Nil
  then show ?case by (simp add: encoded_values_def)
next
  case (Cons ch rest)
  then show ?case by (simp add: encode_value_eq encoded_values_Cons)
qed

lemma encode_payload_eq:
  assumes "aud_id \<noteq> []" "pin \<noteq> []" "four_digit_pin pin"
  shows "encode_payload payload aud_id pin = Inr (encoded_values payload aud_id pin 0)"
  using assms
  by (simp add: encode_payload_def int_each_four_digit_pin length_digits_of_pin encode_loop_eq)

subsection \<open>The decoding loop\<close>

lemma float_overflow_large: "126 < float_overflow"
  by (simp add: float_overflow_def)

lemma is_integer_of_int: "is_integer (of_int n)"
  by (simp add: is_integer_def)

lemma is_integer_divide:
  assumes "b \<noteq> 0"
  shows "is_integer (of_int a / of_int b) \<longleftrightarrow> b dvd a"
proof
  assume "is_integer (of_int a / of_int b)"
  then obtain n :: int where "(of_int n :: rat) = of_int a / of_int b"
    unfolding is_integer_def by metis
  with assms have "(of_int (n * b) :: rat) = of_int a"
    by (simp add: field_simps)
  then have "n * b = a"
    by (simp only: of_int_eq_iff)
  then show "b dvd a" by auto
next
  assume "b dvd a"
  then obtain k where "a = b * k" ..
  with assms show "is_integer (of_int a / of_int b)"
    by (simp add: is_integer_of_int)
qed

lemma true_div_eq:
  "b \<noteq> 0 \<Longrightarrow> \<bar>of_int a / of_int b\<bar> < float_overflow \<Longrightarrow>
   true_div a b = Inr (of_int a / of_int b)"
  by (simp add: true_div_def)

lemma divisor_nonzero:
  "four_digit_pin pin \<Longrightarrow> audience_code aud_id i \<noteq> 0 \<Longrightarrow>
   audience_code aud_id i * multiplier pin i \<noteq> 0"
  using multiplier_range [of pin i] by simp

lemma decode_value_eq:
  assumes "aud_id \<noteq> []" "four_digit_pin pin" "audience_code aud_id i \<noteq> 0"
    and "\<bar>char_quotient aud_id pin i v\<bar> < float_overflow"
  shows "decode_value aud_id (digits_of_pin pin) i v = Inr (char_quotient aud_id pin i v)"
  using assms divisor_nonzero [OF assms(2,3)]
  by (simp add: decode_value_def aud_ascii_at_eq pin_multiplier_at_eq char_quotient_def true_div_eq)

lemma decode_value_zero_code:
  assumes "aud_id \<noteq> []" "audience_code aud_id i = 0"
  shows "decode_value aud_id (digits_of_pin pin) i v = Inl ZeroDivisionError"
  using assms
  by (simp add: decode_value_def aud_ascii_at_eq pin_multiplier_at_eq true_div_def)

lemma decode_value_overflow:
  assumes "aud_id \<noteq> []" "four_digit_pin pin" "audience_code aud_id i \<noteq> 0"
    and "float_overflow \<le> \<bar>char_quotient aud_id pin i v\<bar>"
  shows "decode_value aud_id (digits_of_pin pin) i v = Inl OverflowError"
  using assms divisor_nonzero [OF assms(2,3)]
  by (simp add: decode_value_def aud_ascii_at_eq pin_multiplier_at_eq char_quotient_def true_div_def)

lemma valid_char_code_defined:
  assumes "valid_char_code (char_quotient aud_id pin i v)"
  shows "audience_code aud_id i \<noteq> 0" and "\<bar>char_quotient aud_id pin i v\<bar> < float_overflow"
proof -
  from assms have q: "32 \<le> char_quotient aud_id pin i v" "char_quotient aud_id pin i v \<le> 126"
    by (simp_all add: valid_char_code_def)
  from q(1) show "audience_code aud_id i \<noteq> 0"
    by (auto simp: char_quotient_def)
  from q float_overflow_large show "\<bar>char_quotient aud_id pin i v\<bar> < float_overflow"
    by simp
qed

lemma decode_value_valid:
  assumes "aud_id \<noteq> []" "four_digit_pin pin" "valid_char_code (char_quotient aud_id pin i v)"
  shows "decode_value aud_id (digits_of_pin pin) i v = Inr (char_quotient aud_id pin i v)"
  using assms valid_char_code_defined [OF assms(3)] by (simp add: decode_value_eq)

lemma quotient_encoded:
  assumes "four_digit_pin pin" "audience_code aud_id i \<noteq> 0"
  shows "char_quotient aud_id pin i (c * audience_code aud_id i * multiplier pin i) = of_int c"
  using divisor_nonzero [OF assms] by (simp add: char_quotient_def)

lemma valid_char_code_printable:
  "valid_char_code (of_int (of_char ch)) \<longleftrightarrow> printable ch"
proof -
  have e: "(of_char ch :: int) = int (of_char ch)"
    by (simp add: of_nat_of_char)
  show ?thesis
    unfolding e valid_char_code_def printable_def
    using is_integer_of_int [of "int (of_char ch)"] by simp
qed

lemma decode_loop_step_valid:
  assumes "aud_id \<noteq> []" "four_digit_pin pin" "valid_char_code (char_quotient aud_id pin i v)"
  shows "decode_loop aud_id (digits_of_pin pin) i (v # rest) acc =
         decode_loop aud_id (digits_of_pin pin) (Suc i) rest
           (acc @ [char_of \<lfloor>char_quotient aud_id pin i v\<rfloor>])"
  using assms(3) by (simp add: decode_value_valid [OF assms] valid_char_code_def)

lemma decode_loop_step_invalid:
  assumes "aud_id \<noteq> []" "four_digit_pin pin" "audience_code aud_id i \<noteq> 0"
    and "\<bar>char_quotient aud_id pin i v\<bar> < float_overflow"
    and "\<not> valid_char_code (char_quotient aud_id pin i v)"
  shows "decode_loop aud_id (digits_of_pin pin) i (v # rest) acc =
         Inr (DecodeError i (char_quotient aud_id pin i v))"
  using assms(5) by (auto simp: decode_value_eq [OF assms(1-4)] valid_char_code_def)

lemma decode_loop_encoded:
  assumes "aud_id \<noteq> []" "four_digit_pin pin"
  shows "list_all printable payload \<Longrightarrow>
         (\<forall>j < length payload. audience_code aud_id (i + j) \<noteq> 0) \<Longrightarrow>
         decode_loop aud_id (digits_of_pin pin) i (encoded_values payload aud_id pin i) acc =
           Inr (Decoded (acc @ payload))"
proof (induction payload arbitrary: i acc)
  case Nil
  then show ?case by (simp add: encoded_values_def)
next
  case (Cons ch rest)
  from Cons.prems(2) have code: "audience_code aud_id i \<noteq> 0"
    by force
  from Cons.prems(2) have rest_codes: "\<forall>j < length rest. audience_code aud_id (Suc i + j) \<noteq> 0"
    by force
  from Cons.prems(1) have ch: "printable ch" and rest: "list_all printable rest"
    by simp_all
  have q: "char_quotient aud_id pin i (of_char ch * audience_code aud_id i * multiplier pin i)
             = of_int (of_char ch)"
    by (rule quotient_encoded [OF assms(2) code])
  have valid: "valid_char_code
                 (char_quotient aud_id pin i (of_char ch * audience_code aud_id i * multiplier pin i))"
    using ch by (simp add: q valid_char_code_printable)
  show ?case
    unfolding encoded_values_Cons decode_loop_step_valid [OF assms valid]
    using Cons.IH [OF rest rest_codes] by (simp add: q)
qed

lemma decode_loop_first_invalid:
  assumes "aud_id \<noteq> []" "four_digit_pin pin"
  shows "k < length xs \<Longrightarrow>
         (\<forall>j < k. valid_char_code (char_quotient aud_id pin (i + j) (xs ! j))) \<Longrightarrow>
         \<not> valid_char_code (char_quotient aud_id pin (i + k) (xs ! k)) \<Longrightarrow>
         audience_code aud_id (i + k) \<noteq> 0 \<Longrightarrow>
         \<bar>char_quotient aud_id pin (i + k) (xs ! k)\<bar> < float_overflow \<Longrightarrow>
         decode_loop aud_id (digits_of_pin pin) i xs acc =
           Inr (DecodeError (i + k) (char_quotient aud_id pin (i + k) (xs ! k)))"
proof (induction xs arbitrary: i k acc)
  case Nil
  then show ?case by simp
next
  case (Cons v rest)
  show ?case
  proof (cases k)
    case 0
    with Cons.prems have "audience_code aud_id i \<noteq> 0"
      "\<bar>char_quotient aud_id pin i v\<bar> < float_overflow"
      "\<not> valid_char_code (char_quotient aud_id pin i v)"
      by simp_all
    from decode_loop_step_invalid [OF assms this] 0 show ?thesis
      by simp
  next
    case (Suc k')
    with Cons.prems(2) have valid: "valid_char_code (char_quotient aud_id pin i v)"
      by force
    have earlier: "\<forall>j < k'. valid_char_code (char_quotient aud_id pin (Suc i + j) (rest ! j))"
      using Cons.prems(2) Suc by force
    have "decode_loop aud_id (digits_of_pin pin) (Suc i) rest
            (acc @ [char_of \<lfloor>char_quotient aud_id pin i v\<rfloor>]) =
          Inr (DecodeError (Suc i + k') (char_quotient aud_id pin (Suc i + k') (rest ! k')))"
      using Cons.prems Suc by (intro Cons.IH earlier) simp_all
    then show ?thesis
      using Suc decode_loop_step_valid [OF assms valid] by simp
  qed
qed

lemma decode_loop_total:
  assumes "aud_id \<noteq> []" "four_digit_pin pin"
  shows "(\<forall>j < length xs. audience_code aud_id (i + j) \<noteq> 0
            \<and> \<bar>char_quotient aud_id pin (i + j) (xs ! j)\<bar> < float_overflow) \<Longrightarrow>
         \<exists>r. decode_loop aud_id (digits_of_pin pin) i xs acc = Inr r"
proof (induction xs arbitrary: i acc)
  case Nil
  then show ?case by simp
next
  case (Cons v rest)
  from Cons.prems have here: "audience_code aud_id i \<noteq> 0"
    "\<bar>char_quotient aud_id pin i v\<bar> < float_overflow"
    by force+
  from Cons.prems have later: "\<forall>j < length rest. audience_code aud_id (Suc i + j) \<noteq> 0
      \<and> \<bar>char_quotient aud_id pin (Suc i + j) (rest ! j)\<bar> < float_overflow"
    by force
  show ?case
  proof (cases "valid_char_code (char_quotient aud_id pin i v)")
    case True
    from decode_loop_step_valid [OF assms True] Cons.IH [OF later] show ?thesis
      by simp
  next
    case False
    from decode_loop_step_invalid [OF assms here False] show ?thesis
      by simp
  qed
qed

subsection \<open>Evaluation and auxiliary facts\<close>

lemma is_integer_numeral_divide:
  "is_integer (numeral a / numeral b) \<longleftrightarrow> (numeral b :: int) dvd numeral a"
  using is_integer_divide [of "numeral b" "numeral a"] by simp

lemma of_char_nonzero: "c \<noteq> CHR 0x00 \<Longrightarrow> of_char c \<noteq> (0 :: int)"
  using of_char_eq_iff [of c "CHR 0x00", where ?'a = int] by simp

lemma audience_code_nonzero:
  assumes "aud_id \<noteq> []" "CHR 0x00 \<notin> set aud_id"
  shows "audience_code aud_id i \<noteq> 0"
proof -
  have "audience_index (length aud_id) i < length aud_id"
    using assms(1) by (simp add: audience_index_def)
  then have "aud_id ! audience_index (length aud_id) i \<in> set aud_id"
    by (rule nth_mem)
  with assms(2) have "aud_id ! audience_index (length aud_id) i \<noteq> CHR 0x00"
    by metis
  then show ?thesis
    unfolding audience_code_def by (rule of_char_nonzero)
qed

lemma length_encoded_values: "length (encoded_values payload aud_id pin i) = length payload"
  by (simp add: encoded_values_def)

lemma nth_encoded_values:
  "j < length payload \<Longrightarrow>
   encoded_values payload aud_id pin i ! j =
     of_char (payload ! j) * audience_code aud_id (i + j) * multiplier pin (i + j)"
  by (simp add: encoded_values_def)

lemma encode_payload_Inr:
  assumes "encode_payload payload aud_id pin = Inr encoded"
  shows "aud_id \<noteq> []" "pin \<noteq> []" "four_digit_pin pin"
    "encoded = encoded_values payload aud_id pin 0"
proof -
  from assms show a: "aud_id \<noteq> []" and p: "pin \<noteq> []"
    by (auto simp: encode_payload_def split: if_splits)
  show f: "four_digit_pin pin"
  proof (rule ccontr)
    assume "\<not> four_digit_pin pin"
    from int_each_not_four_digit_pin [OF this] a p assms show False
      by (auto simp: encode_payload_def)
  qed
  from assms show "encoded = encoded_values payload aud_id pin 0"
    by (simp add: encode_payload_eq [OF a p f])
qed

lemma decode_payload_eq:
  "four_digit_pin pin \<Longrightarrow>
   decode_payload xs aud_id pin = decode_loop aud_id (digits_of_pin pin) 0 xs []"
  by (simp add: decode_payload_def int_each_four_digit_pin)

lemmas eval_defs =
  encode_payload_def decode_payload_def zfill_def slice_last_def py_int_def encode_value_def
  decode_value_def aud_ascii_at_def wrapped_index_def pin_multiplier_at_def BASE_OFFSET_def
  true_div_def float_overflow_def

lemmas spec_defs =
  printable_def decimal_digit_def normalized_pin_def four_digit_pin_def digits_of_pin_def
  audience_index_def audience_code_def multiplier_def char_quotient_def valid_char_code_def
  slice_last_def BASE_OFFSET_def float_overflow_def is_integer_numeral_divide

subsection \<open>Round trip\<close>

text \<open>
  C1 (as amended). For every payload of printable characters (codes 32..126), every
  non-empty audience id whose character selected at each position of the payload is not
  the NUL character, and every PIN that normalizes to 4 decimal digits: every array that
  \<open>encode_payload\<close> returns is decoded, with the same audience id and PIN, to the payload
  itself, and \<open>encode_payload\<close> returns an array whenever the PIN is not the empty string.
\<close>

theorem roundtrip:
  assumes "list_all printable payload" and "aud_id \<noteq> []" and "four_digit_pin pin"
    and "\<forall>i < length payload. audience_code aud_id i \<noteq> 0"
  shows "(\<forall>encoded. encode_payload payload aud_id pin = Inr encoded \<longrightarrow>
            decode_payload encoded aud_id pin = Inr (Decoded payload))
         \<and> (pin \<noteq> [] \<longrightarrow> (\<exists>encoded. encode_payload payload aud_id pin = Inr encoded))"
proof (intro conjI allI impI)
  fix encoded
  assume "encode_payload payload aud_id pin = Inr encoded"
  then have "encoded = encoded_values payload aud_id pin 0"
    by (rule encode_payload_Inr)
  moreover have "decode_loop aud_id (digits_of_pin pin) 0 (encoded_values payload aud_id pin 0) []
                   = Inr (Decoded ([] @ payload))"
    using assms(1,4) by (intro decode_loop_encoded [OF assms(2,3)]) simp_all
  ultimately show "decode_payload encoded aud_id pin = Inr (Decoded payload)"
    by (simp add: decode_payload_eq [OF assms(3)])
next
  assume "pin \<noteq> []"
  with assms show "\<exists>encoded. encode_payload payload aud_id pin = Inr encoded"
    by (simp add: encode_payload_eq)
qed

theorem roundtrip_witness:
  "encode_payload ''MEAM'' ''abc'' ''5329'' = Inr [37730, 20493, 12610, 67914]
   \<and> decode_payload [37730, 20493, 12610, 67914] ''abc'' ''5329'' = Inr (Decoded ''MEAM'')"
proof -
  have enc: "encode_payload ''MEAM'' ''abc'' ''5329'' = Inr [37730, 20493, 12610, 67914]"
    by (simp add: eval_defs)
  have codes: "\<forall>i < length ''MEAM''. audience_code ''abc'' i \<noteq> 0"
    by (simp add: audience_code_nonzero)
  have "list_all printable ''MEAM''" "''abc'' \<noteq> []" "four_digit_pin ''5329''"
    by (simp_all add: spec_defs)
  from roundtrip [OF this codes] enc show ?thesis
    by simp
qed

text \<open>
  The claim as stated, for every non-empty audience id, fails when the audience id holds a
  NUL character: its code 0 makes the encoded value 0 and the divisor of the decoder 0.
\<close>

theorem roundtrip_counterexample:
  "list_all printable ''A'' \<and> [CHR 0x00] \<noteq> [] \<and> four_digit_pin ''1234''
   \<and> encode_payload ''A'' [CHR 0x00] ''1234'' = Inr [0]
   \<and> decode_payload [0] [CHR 0x00] ''1234'' = Inl ZeroDivisionError"
  by (simp add: eval_defs spec_defs)

lemma is_integer_numeral: "is_integer (numeral n)"
  using is_integer_of_int [of "numeral n"] by simp

lemmas quotient_defs = spec_defs is_integer_numeral

subsection \<open>Integrity failures of the decoder\<close>

text \<open>
  C2 (as amended). For every encoded array, every non-empty audience id and every PIN that
  normalizes to 4 decimal digits: if position \<open>i\<close> is the first one whose quotient
  \<open>encoded[i] / (audience_code * multiplier)\<close> is not an exact integer in 32..126, the
  audience character selected at \<open>i\<close> is not NUL, and the quotient is in magnitude below
  the overflow bound of a float, then \<open>decode_payload\<close> returns the error of position
  \<open>i\<close>, which carries \<open>i\<close> and the quotient, and no decoded string.
\<close>

theorem decode_integrity_failure:
  assumes "aud_id \<noteq> []" and "four_digit_pin pin" and "i < length encoded_array"
    and "\<forall>j < i. valid_char_code (char_quotient aud_id pin j (encoded_array ! j))"
    and "\<not> valid_char_code (char_quotient aud_id pin i (encoded_array ! i))"
    and "audience_code aud_id i \<noteq> 0"
    and "\<bar>char_quotient aud_id pin i (encoded_array ! i)\<bar> < float_overflow"
  shows "decode_payload encoded_array aud_id pin =
           Inr (DecodeError i (char_quotient aud_id pin i (encoded_array ! i)))"
  using decode_loop_first_invalid [OF assms(1,2), of i encoded_array 0 "[]"] assms(3-7)
  by (simp add: decode_payload_eq [OF assms(2)])

theorem decode_integrity_failure_witness:
  "decode_payload [6305, 6306] ''a'' ''1111'' = Inr (DecodeError 1 (6306 / 97))"
proof -
  have "''a'' \<noteq> []" "four_digit_pin ''1111''" "1 < length [6305, 6306 :: int]"
    "\<forall>j < 1. valid_char_code (char_quotient ''a'' ''1111'' j ([6305, 6306] ! j))"
    "\<not> valid_char_code (char_quotient ''a'' ''1111'' 1 ([6305, 6306] ! 1))"
    "audience_code ''a'' 1 \<noteq> 0"
    "\<bar>char_quotient ''a'' ''1111'' 1 ([6305, 6306] ! 1)\<bar> < float_overflow"
    by (simp_all add: quotient_defs)
  from decode_integrity_failure [OF this] show ?thesis
    by (simp add: quotient_defs)
qed

text \<open>
  The claim as stated, for every encoded array and audience id, fails where the division
  itself raises: on an encoded value too large for a float, and on a NUL character of the
  audience id.
\<close>

theorem decode_integrity_failure_counterexample:
  "\<not> valid_char_code (char_quotient ''a'' ''1111'' 0 ([2 ^ 1100] ! 0))
   \<and> decode_payload [2 ^ 1100] ''a'' ''1111'' = Inl OverflowError
   \<and> \<not> valid_char_code (char_quotient [CHR 0x00] ''1111'' 0 ([65] ! 0))
   \<and> decode_payload [65] [CHR 0x00] ''1111'' = Inl ZeroDivisionError"
  by (simp add: eval_defs spec_defs)

subsection \<open>Tamper detection\<close>

text \<open>
  C3 (as amended). For every array that \<open>encode_payload\<close> returns for a payload of
  printable characters, an audience id and a PIN, and every position \<open>j\<close> of it such that
  the audience characters selected at the positions up to \<open>j\<close> are not NUL: adding to the
  element at \<open>j\<close> an amount that \<open>audience_code * multiplier\<close> of that position does not
  divide, the new quotient being in magnitude below the overflow bound of a float, makes
  \<open>decode_payload\<close> with the same audience id and PIN return the error of position \<open>j\<close>,
  not a string.
\<close>

theorem tamper_detection:
  assumes "list_all printable payload"
    and "encode_payload payload aud_id pin = Inr encoded"
    and "j < length encoded"
    and "\<forall>k \<le> j. audience_code aud_id k \<noteq> 0"
    and "\<not> (audience_code aud_id j * multiplier pin j) dvd delta"
    and "\<bar>char_quotient aud_id pin j (encoded ! j + delta)\<bar> < float_overflow"
  shows "decode_payload (encoded[j := encoded ! j + delta]) aud_id pin =
           Inr (DecodeError j (char_quotient aud_id pin j (encoded ! j + delta)))"
proof -
  note enc = encode_payload_Inr [OF assms(2)]
  let ?xs = "encoded[j := encoded ! j + delta]"
  let ?d = "audience_code aud_id j * multiplier pin j"
  have len: "length encoded = length payload"
    by (simp add: enc(4) length_encoded_values)
  have d: "?d \<noteq> 0"
    using assms(4) by (intro divisor_nonzero [OF enc(3)]) simp
  have at_j: "?xs ! j = encoded ! j + delta"
    using assms(3) by simp
  have earlier: "\<forall>k < j. valid_char_code (char_quotient aud_id pin (0 + k) (?xs ! k))"
  proof (intro allI impI)
    fix k assume k: "k < j"
    with assms(3) len have kp: "k < length payload" by simp
    from k assms(4) have code: "audience_code aud_id k \<noteq> 0" by simp
    from kp assms(1) have "printable (payload ! k)"
      by (simp add: list_all_length)
    moreover from k have "?xs ! k = encoded ! k" by simp
    ultimately show "valid_char_code (char_quotient aud_id pin (0 + k) (?xs ! k))"
      using kp by (simp add: enc(4) nth_encoded_values quotient_encoded [OF enc(3) code]
          valid_char_code_printable)
  qed
  have "encoded ! j = of_char (payload ! j) * ?d"
    using assms(3) len by (simp add: enc(4) nth_encoded_values mult.assoc)
  then have "?d dvd encoded ! j"
    by simp
  with assms(5) have "\<not> ?d dvd encoded ! j + delta"
    by (simp add: dvd_add_right_iff)
  with is_integer_divide [OF d, of "encoded ! j + delta"]
  have "\<not> is_integer (char_quotient aud_id pin j (encoded ! j + delta))"
    unfolding char_quotient_def by blast
  then have invalid: "\<not> valid_char_code (char_quotient aud_id pin (0 + j) (?xs ! j))"
    by (simp add: at_j valid_char_code_def)
  have "decode_loop aud_id (digits_of_pin pin) 0 ?xs [] =
          Inr (DecodeError (0 + j) (char_quotient aud_id pin (0 + j) (?xs ! j)))"
    using assms(3,4,6) at_j
    by (intro decode_loop_first_invalid [OF enc(1,3)] earlier invalid) simp_all
  then show ?thesis
    by (simp add: decode_payload_eq [OF enc(3)] at_j)
qed

theorem tamper_detection_witness:
  "decode_payload ([12610, 6305][1 := 6305 + 1]) ''a'' ''2111'' = Inr (DecodeError 1 (6306 / 97))"
proof -
  have "list_all printable ''AA''"
    "encode_payload ''AA'' ''a'' ''2111'' = Inr [12610, 6305]"
    "1 < length [12610, 6305 :: int]"
    "\<forall>k \<le> 1. audience_code ''a'' k \<noteq> 0"
    "\<not> (audience_code ''a'' 1 * multiplier ''2111'' 1) dvd 1"
    "\<bar>char_quotient ''a'' ''2111'' 1 ([12610, 6305] ! 1 + 1)\<bar> < float_overflow"
    by (simp_all add: eval_defs spec_defs audience_code_nonzero)
  from tamper_detection [OF this] show ?thesis
    by (simp add: spec_defs)
qed

text \<open>
  The claim as stated, for any amount that breaks divisibility, fails on an amount that
  takes the element out of the range of a float, and on a NUL character of the audience
  id: in both the division raises instead.
\<close>

theorem tamper_detection_counterexample:
  "encode_payload ''A'' ''a'' ''1111'' = Inr [6305]
   \<and> \<not> (audience_code ''a'' 0 * multiplier ''1111'' 0) dvd (2 ^ 1100)
   \<and> decode_payload ([6305][0 := 6305 + 2 ^ 1100]) ''a'' ''1111'' = Inl OverflowError
   \<and> encode_payload ''A'' [CHR 0x00] ''1111'' = Inr [0]
   \<and> \<not> (audience_code [CHR 0x00] 0 * multiplier ''1111'' 0) dvd 5
   \<and> decode_payload ([0][0 := 0 + 5]) [CHR 0x00] ''1111'' = Inl ZeroDivisionError"
  by (simp add: eval_defs spec_defs)

lemma replicate_numeral: "replicate (numeral k) x = x # replicate (pred_numeral k) x"
  by (simp add: numeral_eq_Suc)

lemmas run_defs = eval_defs replicate_numeral

lemmas pin_defs = spec_defs replicate_numeral

subsection \<open>Length and positivity of the encoded array\<close>

text \<open>
  C4. For every payload string, every non-empty audience id and every PIN that normalizes
  to 4 decimal digits, the array that \<open>encode_payload\<close> returns has exactly one integer per
  character of the payload, in the same order: its length is the length of the payload,
  and its element at position \<open>i\<close> is the product of the code of the payload character
  at \<open>i\<close>, the audience code and the multiplier of \<open>i\<close>. The array is returned whenever the
  PIN is not the empty string.
\<close>

theorem length_preservation:
  assumes "aud_id \<noteq> []" and "four_digit_pin pin"
  shows "(\<forall>encoded. encode_payload payload aud_id pin = Inr encoded \<longrightarrow>
            length encoded = length payload
            \<and> (\<forall>i < length payload.
                  encoded ! i = of_char (payload ! i) * audience_code aud_id i * multiplier pin i))
         \<and> (pin \<noteq> [] \<longrightarrow> (\<exists>encoded. encode_payload payload aud_id pin = Inr encoded))"
proof (intro conjI allI impI)
  fix encoded
  assume "encode_payload payload aud_id pin = Inr encoded"
  then have enc: "encoded = encoded_values payload aud_id pin 0"
    by (rule encode_payload_Inr)
  then show "length encoded = length payload"
    by (simp add: length_encoded_values)
  fix i
  assume "i < length payload"
  with enc show "encoded ! i = of_char (payload ! i) * audience_code aud_id i * multiplier pin i"
    by (simp add: nth_encoded_values)
next
  assume "pin \<noteq> []"
  with assms show "\<exists>encoded. encode_payload payload aud_id pin = Inr encoded"
    by (simp add: encode_payload_eq)
qed

theorem length_preservation_witness:
  "encode_payload ''MEAM'' ''abc'' ''29'' = Inr [75460, 68310, 12610, 67914]
   \<and> length [75460, 68310, 12610, 67914 :: int] = length ''MEAM''"
proof -
  have enc: "encode_payload ''MEAM'' ''abc'' ''29'' = Inr [75460, 68310, 12610, 67914]"
    by (simp add: run_defs)
  have "''abc'' \<noteq> []" "four_digit_pin ''29''"
    by (simp_all add: pin_defs)
  from length_preservation [OF this, of "''MEAM''"] enc show ?thesis
    by simp
qed

text \<open>
  C5 (as amended). For every payload without a NUL character (so for every payload of
  printable characters), every non-empty audience id whose character selected at each
  position of the payload is not NUL, and every PIN that normalizes to 4 decimal digits,
  every element of the array that \<open>encode_payload\<close> returns is strictly positive; the array
  is returned whenever the PIN is not the empty string.
\<close>

theorem positivity:
  assumes "aud_id \<noteq> []" and "four_digit_pin pin"
    and "CHR 0x00 \<notin> set payload"
    and "\<forall>i < length payload. audience_code aud_id i \<noteq> 0"
  shows "(\<forall>encoded. encode_payload payload aud_id pin = Inr encoded \<longrightarrow>
            (\<forall>v \<in> set encoded. 0 < v))
         \<and> (pin \<noteq> [] \<longrightarrow> (\<exists>encoded. encode_payload payload aud_id pin = Inr encoded))"
proof (intro conjI allI impI ballI)
  fix encoded v
  assume "encode_payload payload aud_id pin = Inr encoded" and mem: "v \<in> set encoded"
  then have enc: "encoded = encoded_values payload aud_id pin 0"
    by (intro encode_payload_Inr)
  from mem obtain i where "i < length encoded" and "v = encoded ! i"
    by (auto simp: in_set_conv_nth)
  then have i: "i < length payload"
    and v: "v = of_char (payload ! i) * audience_code aud_id i * multiplier pin i"
    by (simp_all add: enc length_encoded_values nth_encoded_values)
  from i assms(3) have "payload ! i \<noteq> CHR 0x00"
    by (metis nth_mem)
  then have "0 < (of_char (payload ! i) :: int)"
    by (intro of_char_int_pos of_char_nonzero)
  moreover from i assms(4) have "0 < audience_code aud_id i"
    using audience_code_nonneg [of aud_id i] by (simp add: order_less_le)
  moreover have "0 < multiplier pin i"
    using multiplier_range [OF assms(2), of i] by simp
  ultimately show "0 < v"
    by (simp add: v)
next
  assume "pin \<noteq> []"
  with assms show "\<exists>encoded. encode_payload payload aud_id pin = Inr encoded"
    by (simp add: encode_payload_eq)
qed

theorem positivity_witness:
  "encode_payload ''MEAM'' ''abc'' ''0000'' = Inr [75460, 68310, 63050, 75460]
   \<and> (0 :: int) < 75460 \<and> (0 :: int) < 68310 \<and> (0 :: int) < 63050"
proof -
  have enc: "encode_payload ''MEAM'' ''abc'' ''0000'' = Inr [75460, 68310, 63050, 75460]"
    by (simp add: eval_defs)
  have codes: "\<forall>i < length ''MEAM''. audience_code ''abc'' i \<noteq> 0"
    by (simp add: audience_code_nonzero)
  have "''abc'' \<noteq> []" "four_digit_pin ''0000''" "CHR 0x00 \<notin> set ''MEAM''"
    by (simp_all add: spec_defs)
  from positivity [OF this codes] enc show ?thesis
    by simp
qed

text \<open>
  The claim as stated, for all valid inputs, fails on an audience id that holds a NUL
  character: the element it contributes to is 0.
\<close>

theorem positivity_counterexample:
  "list_all printable ''A'' \<and> [CHR 0x00] \<noteq> [] \<and> four_digit_pin ''5329''
   \<and> encode_payload ''A'' [CHR 0x00] ''5329'' = Inr [0] \<and> \<not> (0 :: int) < [0] ! 0"
  by (simp add: eval_defs spec_defs)

subsection \<open>Wrap-around of the audience index\<close>

text \<open>
  C6. For every audience id of length \<open>L \<ge> 1\<close> and every position \<open>i\<close>, the index that
  the transform selects is \<open>(BASE_OFFSET + i) mod L\<close>, it is the same at \<open>i\<close> and at
  \<open>i + L\<close>, and so is the audience character code read there.
\<close>

theorem wrap_around:
  assumes "1 \<le> length aud_id"
  shows "wrapped_index (length aud_id) i = Inr (audience_index (length aud_id) i)
         \<and> audience_index (length aud_id) i = audience_index (length aud_id) (i + length aud_id)
         \<and> (BASE_OFFSET + i) mod length aud_id = (BASE_OFFSET + i + length aud_id) mod length aud_id
         \<and> wrapped_index (length aud_id) (i + length aud_id) = wrapped_index (length aud_id) i
         \<and> aud_ascii_at aud_id (i + length aud_id) = aud_ascii_at aud_id i"
proof -
  let ?L = "length aud_id"
  from assms have pos: "?L \<noteq> 0"
    by auto
  have "(BASE_OFFSET + i + ?L) mod ?L = (BASE_OFFSET + i) mod ?L"
    by (rule mod_add_self2)
  then have shift: "(BASE_OFFSET + (i + ?L)) mod ?L = (BASE_OFFSET + i) mod ?L"
    by (simp only: add.assoc)
  have w: "wrapped_index ?L (i + ?L) = wrapped_index ?L i"
    using pos by (simp only: wrapped_index_def Let_def shift)
  have "wrapped_index ?L i = Inr ((BASE_OFFSET + i) mod ?L)"
    using pos by (simp add: wrapped_index_def)
  moreover have "aud_ascii_at aud_id (i + ?L) = aud_ascii_at aud_id i"
    by (simp only: aud_ascii_at_def w)
  ultimately show ?thesis
    using w shift by (simp only: audience_index_def add.assoc simp_thms)
qed

theorem wrap_around_witness:
  "wrapped_index 3 0 = Inr 1 \<and> wrapped_index 3 3 = Inr 1
   \<and> aud_ascii_at ''abc'' 3 = aud_ascii_at ''abc'' 0"
proof -
  have L: "length ''abc'' = 3"
    by simp
  have "1 \<le> length ''abc''"
    by simp
  from wrap_around [OF this, of 0, unfolded L] show ?thesis
    by (simp add: audience_index_def BASE_OFFSET_def)
qed

subsection \<open>PIN normalization\<close>

lemma normalized_pin_fixed: "length s = 4 \<Longrightarrow> normalized_pin s = s"
  by (simp add: normalized_pin_def slice_last_def)

lemma normalized_pin_idem: "normalized_pin (normalized_pin pin) = normalized_pin pin"
  by (rule normalized_pin_fixed) (rule length_normalized_pin)

lemma normalized_pin_nonempty: "normalized_pin pin \<noteq> []"
  using length_normalized_pin [of pin] by auto

lemma encode_payload_unfold:
  assumes "aud_id \<noteq> []" "pin \<noteq> []"
  shows "encode_payload payload aud_id pin =
           (case int_each (normalized_pin pin) of
              Inl e \<Rightarrow> Inl e
            | Inr pin_digits \<Rightarrow>
                if length pin_digits \<noteq> 4 then Inl (ValueError ''PIN must be exactly 4 digits'')
                else encode_loop aud_id pin_digits 0 payload [])"
  using assms by (simp add: encode_payload_def int_each_pin_str)

lemma encode_payload_empty_aud:
  "encode_payload payload [] pin = Inl (ValueError ''Audience ID and PIN are required'')"
  by (simp add: encode_payload_def)

lemma encode_payload_empty_pin:
  "encode_payload payload aud_id [] = Inl (ValueError ''Audience ID and PIN are required'')"
  by (simp add: encode_payload_def)

lemma int_each_first_non_digit:
  "int_each s =
     (case first_non_digit s of
        Some c \<Rightarrow> Inl (ValueError_int c)
      | None \<Rightarrow> Inr (map (\<lambda>c. int (of_char c) - 48) s))"
proof (induction s)
  case Nil
  then show ?case by (simp add: first_non_digit_def)
next
  case (Cons d ds)
  show ?case
  proof (cases "decimal_digit d")
    case True
    with Cons show ?thesis
      by (simp add: first_non_digit_def py_int_digit split: option.splits)
  next
    case False
    then show ?thesis
      by (simp add: first_non_digit_def py_int_not_digit)
  qed
qed

lemma first_non_digit_Some:
  assumes "\<not> four_digit_pin pin"
  shows "\<exists>c. first_non_digit (normalized_pin pin) = Some c \<and> \<not> decimal_digit c"
proof -
  from assms have "\<not> list_all decimal_digit (normalized_pin pin)"
    by (simp add: four_digit_pin_def length_normalized_pin)
  then have "first_non_digit (normalized_pin pin) \<noteq> None"
    by (auto simp: first_non_digit_def find_None_iff list_all_iff)
  then obtain c where c: "first_non_digit (normalized_pin pin) = Some c"
    by blast
  then have "\<not> decimal_digit c"
    by (auto simp: first_non_digit_def find_Some_iff)
  with c show ?thesis
    by blast
qed

lemma four_digit_pin_empty: "four_digit_pin []"
  by (simp add: four_digit_pin_def normalized_pin_def slice_last_def decimal_digit_def
      list_all_iff)

text \<open>
  C7 (as amended). Over strings of characters with code points 0..255, where the decimal
  digits are the ASCII digits: for every PIN that is not the empty string,
  \<open>encode_payload\<close> works on the PIN normalized to 4 characters by left-padding with zeros
  and keeping the last 4, so that the PIN and its normalized form encode identically. The
  empty PIN is rejected, before any normalization, with the ValueError that an empty
  audience id gets. Whenever the normalized PIN is not 4 decimal digits, \<open>encode_payload\<close>
  fails, and for a non-empty audience id it fails with the ValueError that \<open>int\<close> raises on
  the first character of the normalized PIN that is not a decimal digit.
\<close>

theorem pin_normalization:
  "(pin \<noteq> [] \<longrightarrow>
      encode_payload payload aud_id pin = encode_payload payload aud_id (normalized_pin pin))
   \<and> encode_payload payload aud_id [] = Inl (ValueError ''Audience ID and PIN are required'')
   \<and> (\<not> four_digit_pin pin \<longrightarrow> (\<exists>e. encode_payload payload aud_id pin = Inl e))
   \<and> (\<not> four_digit_pin pin \<and> aud_id \<noteq> [] \<longrightarrow>
        (\<exists>c. first_non_digit (normalized_pin pin) = Some c \<and> \<not> decimal_digit c
           \<and> encode_payload payload aud_id pin = Inl (ValueError_int c)))"
proof -
  have same: "encode_payload payload aud_id pin = encode_payload payload aud_id (normalized_pin pin)"
    if pin: "pin \<noteq> []"
  proof (cases "aud_id = []")
    case True
    then show ?thesis by (simp add: encode_payload_empty_aud)
  next
    case False
    from encode_payload_unfold [OF False pin]
      encode_payload_unfold [OF False normalized_pin_nonempty]
    show ?thesis by (simp only: normalized_pin_idem)
  qed
  have literal: "\<exists>c. first_non_digit (normalized_pin pin) = Some c \<and> \<not> decimal_digit c
      \<and> encode_payload payload aud_id pin = Inl (ValueError_int c)"
    if bad: "\<not> four_digit_pin pin" and aud: "aud_id \<noteq> []"
  proof -
    from bad four_digit_pin_empty have pin: "pin \<noteq> []"
      by blast
    from first_non_digit_Some [OF bad] obtain c
      where c: "first_non_digit (normalized_pin pin) = Some c" and nd: "\<not> decimal_digit c"
      by blast
    from c have "int_each (normalized_pin pin) = Inl (ValueError_int c)"
      by (simp add: int_each_first_non_digit)
    then have "encode_payload payload aud_id pin = Inl (ValueError_int c)"
      by (simp add: encode_payload_unfold [OF aud pin])
    with c nd show ?thesis
      by blast
  qed
  have fails: "\<exists>e. encode_payload payload aud_id pin = Inl e" if bad: "\<not> four_digit_pin pin"
  proof (cases "aud_id = []")
    case True
    then show ?thesis by (simp add: encode_payload_empty_aud)
  next
    case False
    from literal [OF bad False] show ?thesis by blast
  qed
  from same literal fails encode_payload_empty_pin [of payload aud_id] show ?thesis
    by blast
qed

theorem pin_normalization_witness:
  "encode_payload ''A'' ''abc'' ''12'' = encode_payload ''A'' ''abc'' ''0012''
   \<and> encode_payload ''A'' ''abc'' ''a2b4'' = Inl (ValueError_int CHR ''a'')
   \<and> encode_payload ''A'' ''abc'' ''7+'' = Inl (ValueError_int CHR ''+'')"
proof -
  have n: "normalized_pin ''12'' = ''0012''" "''12'' \<noteq> []"
    by (simp_all add: pin_defs)
  have bad: "\<not> four_digit_pin ''a2b4'' \<and> ''abc'' \<noteq> []"
    "\<not> four_digit_pin ''7+'' \<and> ''abc'' \<noteq> []"
    by (simp_all add: pin_defs)
  have first: "first_non_digit (normalized_pin ''a2b4'') = Some CHR ''a''"
    "first_non_digit (normalized_pin ''7+'') = Some CHR ''+''"
    by (simp_all add: first_non_digit_def pin_defs)
  have "encode_payload ''A'' ''abc'' ''12'' = encode_payload ''A'' ''abc'' ''0012''"
    using pin_normalization [of "''12''" "''A''" "''abc''"] n by simp
  moreover have "encode_payload ''A'' ''abc'' ''a2b4'' = Inl (ValueError_int CHR ''a'')"
    using pin_normalization [of "''a2b4''" "''A''" "''abc''"] bad(1) first(1) by auto
  moreover have "encode_payload ''A'' ''abc'' ''7+'' = Inl (ValueError_int CHR ''+'')"
    using pin_normalization [of "''7+''" "''A''" "''abc''"] bad(2) first(2) by auto
  ultimately show ?thesis
    by (simp only: simp_thms)
qed

text \<open>
  The claim as stated, for whatever PIN is supplied, fails on the empty PIN: it would
  normalize to \<open>0000\<close>, four decimal digits, but \<open>encode_payload\<close> rejects it before any
  normalization.
\<close>

theorem pin_normalization_counterexample:
  "normalized_pin [] = ''0000'' \<and> four_digit_pin []
   \<and> encode_payload ''A'' ''abc'' [] = Inl (ValueError ''Audience ID and PIN are required'')
   \<and> encode_payload ''A'' ''abc'' ''0000'' = Inr [63700]"
  by (simp add: run_defs pin_defs)

subsection \<open>Store keys\<close>

lemma str_int_levels: "str_int 1 = ''1''" "str_int 2 = ''2''" "str_int 3 = ''3''"
  by code_simp+

text \<open>
  C8. For a level among 1, 2 and 3 the key name is the string
  \<open>firstlogin_level<level>_<aud>\<close>, the one that \<open>generate_firstlogin_array\<close> returns and
  that the verifier computes from the tier's name; being the value of a function of the two
  arguments it is the same at every call, and two key names are equal exactly when the
  levels and the audience ids are.
\<close>

theorem store_key:
  assumes "level \<in> {1, 2, 3}" and "level' \<in> {1, 2, 3}"
  shows "key_name level aud_id =
           ''firstlogin_level'' @ (if level = 1 then ''1'' else if level = 2 then ''2'' else ''3'')
             @ ''_'' @ aud_id
         \<and> (key_name level aud_id = key_name level' aud_id' \<longleftrightarrow>
              level = level' \<and> aud_id = aud_id')
         \<and> (\<forall>key encoded. generate_firstlogin_array level aud_id = Inr (key, encoded) \<longrightarrow>
                key = key_name level aud_id)
         \<and> verify_key_name ''FULL'' aud_id = key_name 3 aud_id
         \<and> verify_key_name ''RESTRICTED'' aud_id = key_name 2 aud_id
         \<and> verify_key_name ''BASIC'' aud_id = key_name 1 aud_id"
proof (intro conjI)
  show "key_name level aud_id =
          ''firstlogin_level'' @ (if level = 1 then ''1'' else if level = 2 then ''2'' else ''3'')
            @ ''_'' @ aud_id"
    using assms(1) by (auto simp: key_name_def str_int_levels)
  show "key_name level aud_id = key_name level' aud_id' \<longleftrightarrow>
          level = level' \<and> aud_id = aud_id'"
    using assms by (auto simp: key_name_def str_int_levels)
  show "\<forall>key encoded. generate_firstlogin_array level aud_id = Inr (key, encoded) \<longrightarrow>
          key = key_name level aud_id"
    by (auto simp: generate_firstlogin_array_def split: option.splits sum.splits)
  show "verify_key_name ''FULL'' aud_id = key_name 3 aud_id"
    "verify_key_name ''RESTRICTED'' aud_id = key_name 2 aud_id"
    "verify_key_name ''BASIC'' aud_id = key_name 1 aud_id"
    by (simp_all add: verify_key_name_def key_name_def str_int_levels)
qed

theorem store_key_witness:
  "key_name 3 ''edd14b'' = ''firstlogin_level3_edd14b''
   \<and> key_name 3 ''edd14b'' \<noteq> key_name 2 ''edd14b''
   \<and> key_name 3 ''edd14b'' \<noteq> key_name 3 ''edd14c''"
proof -
  have l3: "(3 :: int) \<in> {1, 2, 3}" and l2: "(2 :: int) \<in> {1, 2, 3}"
    by simp_all
  have "key_name 3 ''edd14b'' = ''firstlogin_level3_edd14b''"
    using store_key [OF l3 l3, of "''edd14b''" "''edd14b''", THEN conjunct1] by simp
  moreover have "key_name 3 ''edd14b'' \<noteq> key_name 2 ''edd14b''"
    using store_key [OF l3 l2, of "''edd14b''" "''edd14b''", THEN conjunct2, THEN conjunct1]
    by simp
  moreover have "key_name 3 ''edd14b'' \<noteq> key_name 3 ''edd14c''"
    using store_key [OF l3 l3, of "''edd14b''" "''edd14c''", THEN conjunct2, THEN conjunct1]
    by simp
  ultimately show ?thesis
    by (simp only: simp_thms)
qed

subsection \<open>Rejected audience ids\<close>

text \<open>
  C9. An empty audience id is rejected by \<open>encode_payload\<close>, which raises its ValueError
  whatever the payload and the PIN are, and therefore by \<open>generate_firstlogin_array\<close> at
  every level it knows. \<open>main\<close> rejects an audience id that is empty or shorter than 10
  characters before it encodes anything: it ends at once with exit status 1 and leaves the
  files as they were, with no second attempt.
\<close>

theorem invalid_key_material:
  "encode_payload payload [] pin = Inl (ValueError ''Audience ID and PIN are required'')
   \<and> (level \<in> {1, 2, 3} \<longrightarrow>
        generate_firstlogin_array level [] =
          Inl (ValueError ''Audience ID and PIN are required''))
   \<and> (args_aud a = [] \<or> length (args_aud a) < 10 \<longrightarrow> main a fs = (1, fs))"
  by (auto simp: encode_payload_empty_aud generate_firstlogin_array_def main_def
      WORKER_URLS_def BOOTSTRAP_PINS_def TIER_NAMES_def)

theorem invalid_key_material_witness:
  "generate_firstlogin_array 3 [] = Inl (ValueError ''Audience ID and PIN are required'')
   \<and> main \<lparr>args_level = 3, args_aud = ''edd14b346'', args_output = ''somenumbers.json'',
            args_dry_run = False\<rparr> Map.empty = (1, Map.empty)"
  using invalid_key_material [of "[]" "[]" 3
      "\<lparr>args_level = 3, args_aud = ''edd14b346'', args_output = ''somenumbers.json'',
        args_dry_run = False\<rparr>" Map.empty]
  by simp

subsection \<open>Totality of the decoder\<close>

lemma decode_payload_empty_aud:
  assumes "four_digit_pin pin" "xs \<noteq> []"
  shows "decode_payload xs [] pin = Inl ZeroDivisionError"
proof -
  from assms(2) obtain v rest where "xs = v # rest"
    by (cases xs) auto
  then show ?thesis
    by (simp add: decode_payload_eq [OF assms(1)] decode_value_def aud_ascii_at_empty)
qed

text \<open>
  C10 (as amended). \<open>decode_payload\<close> validates none of its key material. For every PIN
  that normalizes to 4 decimal digits: with a non-empty audience id it returns a decoded
  string or an integrity error on every integer array such that, at each position, the
  audience character selected is not NUL and the quotient is in magnitude below the
  overflow bound of a float; with the empty audience id it raises ZeroDivisionError, on the
  modulo by the length 0 at position 0, for every non-empty array (and returns the empty
  string for the empty array).
\<close>

theorem decode_total:
  assumes "four_digit_pin pin"
  shows "(aud_id \<noteq> []
          \<and> (\<forall>i < length xs. audience_code aud_id i \<noteq> 0
                \<and> \<bar>char_quotient aud_id pin i (xs ! i)\<bar> < float_overflow)
          \<longrightarrow> (\<exists>r. decode_payload xs aud_id pin = Inr r))
         \<and> (xs \<noteq> [] \<longrightarrow> wrapped_index (length ([] :: string)) 0 = Inl ZeroDivisionError
              \<and> decode_payload xs [] pin = Inl ZeroDivisionError)
         \<and> decode_payload [] [] pin = Inr (Decoded [])"
proof (intro conjI impI)
  assume h: "aud_id \<noteq> []
    \<and> (\<forall>i < length xs. audience_code aud_id i \<noteq> 0
          \<and> \<bar>char_quotient aud_id pin i (xs ! i)\<bar> < float_overflow)"
  then have "\<exists>r. decode_loop aud_id (digits_of_pin pin) 0 xs [] = Inr r"
    using assms by (intro decode_loop_total) simp_all
  then show "\<exists>r. decode_payload xs aud_id pin = Inr r"
    by (simp add: decode_payload_eq [OF assms])
next
  assume "xs \<noteq> []"
  with assms show "decode_payload xs [] pin = Inl ZeroDivisionError"
    by (rule decode_payload_empty_aud)
next
  show "wrapped_index (length ([] :: string)) 0 = Inl ZeroDivisionError"
    by (simp add: wrapped_index_def)
next
  show "decode_payload [] [] pin = Inr (Decoded [])"
    by (simp add: decode_payload_eq [OF assms])
qed

theorem decode_total_witness:
  "(\<exists>r. decode_payload [6305, 6306] ''a'' ''1111'' = Inr r)
   \<and> decode_payload [6305, 6306] [] ''1111'' = Inl ZeroDivisionError"
proof -
  have pin: "four_digit_pin ''1111''"
    by (simp add: spec_defs)
  have "''a'' \<noteq> []
    \<and> (\<forall>i < length [6305, 6306 :: int]. audience_code ''a'' i \<noteq> 0
          \<and> \<bar>char_quotient ''a'' ''1111'' i ([6305, 6306] ! i)\<bar> < float_overflow)"
    by (auto simp: spec_defs less_Suc_eq)
  with decode_total [OF pin, of "''a''" "[6305, 6306]"] show ?thesis
    by simp
qed

text \<open>
  The claim as stated, for every non-empty audience id and every integer array, fails on a
  NUL character of the audience id and on an element too large for a float: in both the
  division raises.
\<close>

theorem decode_total_counterexample:
  "[CHR 0x00] \<noteq> [] \<and> four_digit_pin ''1234''
   \<and> decode_payload [0] [CHR 0x00] ''1234'' = Inl ZeroDivisionError
   \<and> ''a'' \<noteq> [] \<and> four_digit_pin ''1111''
   \<and> decode_payload [2 ^ 1100] ''a'' ''1111'' = Inl OverflowError"
  by (simp add: eval_defs spec_defs)

end
